theory Spec2Isabelle
  imports Complex_Main
begin

section \<open>Python strings\<close>

text \<open>
  A Python \<open>str\<close> is a sequence of code points. The model uses \<^typ>\<open>string\<close>, whose
  characters are the code points 0 to 255 (Latin-1); \<^const>\<open>length\<close> then counts what
  Python's \<open>len\<close> counts. Texts with code points above 255 are outside the model.
\<close>

text \<open>\<open>s.startswith(p)\<close>, with the pattern first.\<close>

fun starts_with :: "string \<Rightarrow> string \<Rightarrow> bool" where
  "starts_with [] s = True"
| "starts_with (p # ps) [] = False"
| "starts_with (p # ps) (c # cs) = (p = c \<and> starts_with ps cs)"

text \<open>
  \<open>s.replace(old, new)\<close>: every occurrence of \<open>old\<close>, found left to right without
  overlap, becomes \<open>new\<close>. For an empty \<open>old\<close> Python puts \<open>new\<close> before every
  character and at the end.
\<close>

function py_replace :: "string \<Rightarrow> string \<Rightarrow> string \<Rightarrow> string" where
  "py_replace old new [] = (if old = [] then new else [])"
| "py_replace old new (c # cs) =
     (if old = [] then new @ c # py_replace old new cs
      else if starts_with old (c # cs)
        then new @ py_replace old new (drop (length old) (c # cs))
      else c # py_replace old new cs)"
  by pat_completeness auto
termination
  by (relation "measure (\<lambda>(old, new, s). length s)") auto

text \<open>\<open>s.replace(old, new, 1)\<close>: only the first occurrence is replaced.\<close>

fun py_replace1 :: "string \<Rightarrow> string \<Rightarrow> string \<Rightarrow> string" where
  "py_replace1 old new [] = (if old = [] then new else [])"
| "py_replace1 old new (c # cs) =
     (if starts_with old (c # cs) then new @ drop (length old) (c # cs)
      else c # py_replace1 old new cs)"

text \<open>
  A slice \<open>s[i:j]\<close>: a negative index counts from the end, and both indices are clamped
  to the string.
\<close>

definition py_slice :: "string \<Rightarrow> int \<Rightarrow> int \<Rightarrow> string" where
  "py_slice s i j =
     (let n = int (length s);
          i' = (if i < 0 then max 0 (n + i) else min i n);
          j' = (if j < 0 then max 0 (n + j) else min j n)
      in drop (nat i') (take (nat j') s))"

section \<open>Query construction in \<open>search_database\<close>\<close>

text \<open>
  The rows of \<open>text_files\<close> joined with the rank of the full-text index, as the
  \<open>SELECT\<close> of \<open>search_database\<close> returns them. The rank is a floating-point score of
  the engine; only its order matters here.
\<close>

record row =
  r_filepath :: string
  r_filename :: string
  r_content :: string
  r_image_url :: "string option"
  r_rank :: real

text \<open>
  The datastore client: \<open>db_client.execute(sql, params)\<close> returns rows or raises. The
  global \<open>db_client\<close> is \<open>None\<close> when the connection failed at start-up.
\<close>

datatype db_error = DbError

type_synonym client = "string \<Rightarrow> string list \<Rightarrow> db_error + row list"

definition dq :: char where
  "dq = CHR 0x22"

definition quoted_query :: "string \<Rightarrow> string" where
  "quoted_query query =
     (if CHR '' '' \<in> set query
      then (let escaped_query = py_replace [dq] [dq, dq] query
            in [dq] @ escaped_query @ [dq])
      else query)"

definition fts_query_sql :: "string \<Rightarrow> string" where
  "fts_query_sql search_type =
     (if search_type = ''content'' then ''content:?''
      else if search_type = ''filename'' then ''filename:?''
      else ''text_files_fts MATCH ?'')"

definition params :: "string \<Rightarrow> string \<Rightarrow> string list" where
  "params query search_type =
     (if search_type = ''content'' then [quoted_query query]
      else if search_type = ''filename'' then [quoted_query query]
      else [''content:'' @ quoted_query query @ '' OR filename:'' @ quoted_query query])"

definition nl :: string where
  "nl = [CHR 0x0A]"

definition ind :: "nat \<Rightarrow> string" where
  "ind n = replicate n (CHR '' '')"

text \<open>The text of the statement before and after the \<open>WHERE\<close> condition.\<close>

definition sql_head :: string where
  "sql_head =
     nl @ ind 16 @ ''SELECT''
     @ nl @ ind 20 @ ''tf.filepath,''
     @ nl @ ind 20 @ ''tf.filename,''
     @ nl @ ind 20 @ ''tf.content, -- Select the FULL content''
     @ nl @ ind 20 @ ''tf.image_url, -- Select the image URL''
     @ nl @ ind 20 @ ''text_files_fts.rank''
     @ nl @ ind 16 @ ''FROM text_files_fts''
     @ nl @ ind 16 @ ''JOIN text_files AS tf ON text_files_fts.rowid = tf.id''
     @ nl @ ind 16 @ ''WHERE ''"

definition order_limit :: string where
  "order_limit =
     ''ORDER BY text_files_fts.rank''
     @ nl @ ind 16 @ ''LIMIT 1000''
     @ nl @ ind 12"

definition sql_tail :: string where
  "sql_tail = nl @ ind 16 @ order_limit"

text \<open>The f-string assigned to \<open>sql\<close>.\<close>

definition sql_template :: "string \<Rightarrow> string" where
  "sql_template search_type =
     sql_head
     @ (if search_type \<noteq> ''all'' then ''text_files_fts MATCH ?''
        else fts_query_sql search_type)
     @ sql_tail"

definition q_params :: "string \<Rightarrow> string \<Rightarrow> string list" where
  "q_params query search_type =
     (if search_type \<noteq> ''all''
      then [py_replace ''?'' (quoted_query query) (fts_query_sql search_type)]
      else params query search_type)"

text \<open>The statement after ``Adjust params for the query structure''.\<close>

definition adjusted_sql :: "string \<Rightarrow> string \<Rightarrow> string" where
  "adjusted_sql query search_type =
     (if search_type \<noteq> ''all''
      then (case q_params query search_type of
              p # _ \<Rightarrow> py_replace1 ''?'' p (sql_template search_type)
            | [] \<Rightarrow> sql_template search_type)
      else sql_template search_type)"

definition match_clause :: "string \<Rightarrow> string \<Rightarrow> string" where
  "match_clause query search_type = search_type @ '':'' @ quoted_query query"

text \<open>The two arguments of the \<open>db_client.execute\<close> call that runs.\<close>

definition executed_sql :: "string \<Rightarrow> string \<Rightarrow> string" where
  "executed_sql query search_type =
     (if search_type = ''all'' then adjusted_sql query search_type
      else py_replace ''text_files_fts MATCH ?'' ''text_files_fts MATCH ?''
             (adjusted_sql query search_type))"

definition executed_params :: "string \<Rightarrow> string \<Rightarrow> string list" where
  "executed_params query search_type =
     (if search_type = ''all'' then q_params query search_type
      else [match_clause query search_type])"

section \<open>Snippets and highlighting in \<open>search_database\<close>\<close>

text \<open>
  \<open>re.IGNORECASE\<close> on the code points 0 to 255: two characters match when their lower
  cases are equal. The upper-case letters are A to Z and the Latin-1 letters 192 to 222
  without the multiplication sign 215; the lower case of each is 32 higher, which sets
  the bit of value 32.
\<close>

definition is_upper :: "char \<Rightarrow> bool" where
  "is_upper c =
     (let n = (of_char c :: nat)
      in (65 \<le> n \<and> n \<le> 90) \<or> (192 \<le> n \<and> n \<le> 222 \<and> n \<noteq> 215))"

definition lower_ch :: "char \<Rightarrow> char" where
  "lower_ch c =
     (if is_upper c
      then (case c of Char b0 b1 b2 b3 b4 b5 b6 b7 \<Rightarrow> Char b0 b1 b2 b3 b4 True b6 b7)
      else c)"

text \<open>
  The pattern \<open>re.escape(query)\<close> matches the characters of \<open>query\<close> literally, so with
  \<open>re.IGNORECASE\<close> it matches at the head of \<open>s\<close> exactly when \<open>s\<close> starts with the
  query up to case.
\<close>

fun ci_starts_with :: "string \<Rightarrow> string \<Rightarrow> bool" where
  "ci_starts_with [] s = True"
| "ci_starts_with (p # ps) [] = False"
| "ci_starts_with (p # ps) (c # cs) = (lower_ch p = lower_ch c \<and> ci_starts_with ps cs)"

text \<open>
  \<open>pattern.finditer(s)\<close>: the spans \<open>(start, end)\<close> of the matches, scanning from the
  left and resuming after each match; \<open>pos\<close> is the index in the whole text of the head
  of the rest \<open>s\<close>. The empty pattern matches once at every position.
\<close>

function finditer_from :: "string \<Rightarrow> string \<Rightarrow> nat \<Rightarrow> (nat \<times> nat) list" where
  "finditer_from q [] pos = (if q = [] then [(pos, pos)] else [])"
| "finditer_from q (c # cs) pos =
     (if q = [] then (pos, pos) # finditer_from q cs (Suc pos)
      else if ci_starts_with q (c # cs)
        then (pos, pos + length q)
               # finditer_from q (drop (length q) (c # cs)) (pos + length q)
      else finditer_from q cs (Suc pos))"
  by pat_completeness auto
termination
  by (relation "measure (\<lambda>(q, s, pos). length s)") auto

definition finditer :: "string \<Rightarrow> string \<Rightarrow> (nat \<times> nat) list" where
  "finditer q s = finditer_from q s 0"

text \<open>``Find matches in full content and create snippets''.\<close>

definition make_snippet :: "string \<Rightarrow> int \<Rightarrow> string \<Rightarrow> string" where
  "make_snippet query snippet_length full_content =
     (case finditer query full_content of
        (m_start, m_end) # _ \<Rightarrow>
          (let start = max 0 (int m_start - snippet_length);
               end = min (int (length full_content)) (int m_end + snippet_length);
               snippet = py_slice full_content start end;
               snippet = (if start > 0 then ''...'' @ snippet else snippet)
           in (if end < int (length full_content) then snippet @ ''...'' else snippet))
      | [] \<Rightarrow>
          py_slice full_content 0 (snippet_length * 2)
          @ (if int (length full_content) > snippet_length * 2 then ''...'' else ''''))"

definition hl_open :: string where
  \<open>hl_open = ''<span class="highlight">''\<close>

definition hl_close :: string where
  "hl_close = ''</span>''"

text \<open>
  \<open>re.sub(query_regex, r'<span class="highlight">\g<0></span>', snippet,
  flags=re.IGNORECASE)\<close>: every match of the scan is replaced by itself between the two
  tags; the text between the matches is copied.
\<close>

function highlight :: "string \<Rightarrow> string \<Rightarrow> string" where
  "highlight q [] = (if q = [] then hl_open @ hl_close else [])"
| "highlight q (c # cs) =
     (if q = [] then hl_open @ hl_close @ c # highlight q cs
      else if ci_starts_with q (c # cs)
        then hl_open @ take (length q) (c # cs) @ hl_close
               @ highlight q (drop (length q) (c # cs))
      else c # highlight q cs)"
  by pat_completeness auto
termination
  by (relation "measure (\<lambda>(q, s). length s)") auto

record search_result =
  file_path :: string
  file_name :: string
  snippet :: string
  rank :: real
  image_url :: "string option"

text \<open>The body of the loop over \<open>rs.rows\<close>.\<close>

definition process_row :: "string \<Rightarrow> int \<Rightarrow> row \<Rightarrow> search_result" where
  "process_row query snippet_length r =
     \<lparr> file_path = r_filepath r,
       file_name = r_filename r,
       snippet = highlight query (make_snippet query snippet_length (r_content r)),
       rank = r_rank r,
       image_url = r_image_url r \<rparr>"

text \<open>
  \<open>search_database\<close>: the empty list without a client, the empty list when the
  \<open>execute\<close> call raises (the \<open>except\<close> branch), one result per row otherwise.
\<close>

definition search_database ::
  "client option \<Rightarrow> string \<Rightarrow> int \<Rightarrow> string \<Rightarrow> search_result list" where
  "search_database db_client query snippet_length search_type =
     (case db_client of
        None \<Rightarrow> []
      | Some execute \<Rightarrow>
          (case execute (executed_sql query search_type) (executed_params query search_type) of
             Inl e \<Rightarrow> []
           | Inr rows \<Rightarrow> map (process_row query snippet_length) rows))"

section \<open>The \<open>/search\<close> route\<close>

text \<open>
  The values of the fields of the JSON body after decoding: \<open>None\<close>, a \<open>bool\<close>, an
  \<open>int\<close> or a \<open>str\<close>. Floats, arrays and nested objects are outside the model.
\<close>

datatype jval = JNull | JBool bool | JInt int | JStr string

datatype py_error = TypeError | ValueError

text \<open>\<open>data.get(key, default)\<close> on the decoded body, a \<open>dict\<close>.\<close>

definition get :: "(string \<rightharpoonup> jval) \<Rightarrow> string \<Rightarrow> jval \<Rightarrow> jval" where
  "get data key dflt = (case data key of None \<Rightarrow> dflt | Some v \<Rightarrow> v)"

text \<open>The truth value that \<open>not query\<close> tests.\<close>

fun truthy :: "jval \<Rightarrow> bool" where
  "truthy JNull = False"
| "truthy (JBool b) = b"
| "truthy (JInt n) = (n \<noteq> 0)"
| "truthy (JStr s) = (s \<noteq> [])"

text \<open>
  \<open>int(s)\<close> for a string: white space around the number is dropped (the characters 9
  to 13, 32, 133 and 160), then comes an optional sign, then decimal digits, where single
  underscores may stand between digits. Anything else raises \<open>ValueError\<close>.
\<close>

definition int_space :: "char \<Rightarrow> bool" where
  "int_space c =
     (let n = (of_char c :: nat) in (9 \<le> n \<and> n \<le> 13) \<or> n = 32 \<or> n = 133 \<or> n = 160)"

definition is_digit :: "char \<Rightarrow> bool" where
  "is_digit c = (let n = (of_char c :: nat) in 48 \<le> n \<and> n \<le> 57)"

definition digit_val :: "char \<Rightarrow> int" where
  "digit_val c = int (of_char c) - 48"

fun digits_ok :: "string \<Rightarrow> bool" where
  "digits_ok [] = False"
| "digits_ok [c] = is_digit c"
| "digits_ok (c # d # cs) =
     (is_digit c \<and> (if d = CHR ''_'' then digits_ok cs else digits_ok (d # cs)))"

definition digits_value :: "string \<Rightarrow> int" where
  "digits_value s = foldl (\<lambda>acc c. if c = CHR ''_'' then acc else 10 * acc + digit_val c) 0 s"

definition strip_int_space :: "string \<Rightarrow> string" where
  "strip_int_space s = rev (dropWhile int_space (rev (dropWhile int_space s)))"

definition int_of_str :: "string \<Rightarrow> py_error + int" where
  "int_of_str s =
     (let t = strip_int_space s;
          (neg, body) = (case t of
                           c # cs \<Rightarrow> if c = CHR ''-'' then (True, cs)
                                     else if c = CHR ''+'' then (False, cs)
                                     else (False, t)
                         | [] \<Rightarrow> (False, t))
      in if digits_ok body
         then Inr (if neg then - digits_value body else digits_value body)
         else Inl ValueError)"

fun py_int :: "jval \<Rightarrow> py_error + int" where
  "py_int JNull = Inl TypeError"
| "py_int (JBool b) = Inr (if b then 1 else 0)"
| "py_int (JInt n) = Inr n"
| "py_int (JStr s) = int_of_str s"

text \<open>\<open>str(n)\<close> for a natural number and for an integer.\<close>

fun str_nat :: "nat \<Rightarrow> string" where
  "str_nat n =
     (if n < 10 then [''0123456789'' ! n]
      else str_nat (n div 10) @ [''0123456789'' ! (n mod 10)])"

definition str_int :: "int \<Rightarrow> string" where
  "str_int i = (if i < 0 then ''-'' @ str_nat (nat (- i)) else str_nat (nat i))"

text \<open>What the f-string \<open>f"{search_type}:..."\<close> makes of the value.\<close>

fun py_str :: "jval \<Rightarrow> string" where
  "py_str JNull = ''None''"
| "py_str (JBool b) = (if b then ''True'' else ''False'')"
| "py_str (JInt n) = str_int n"
| "py_str (JStr s) = s"

text \<open>
  The call \<open>search_database(query, snippet_length, search_type)\<close> with the values of
  the body. For a query that is not a string, \<open>' ' in query\<close> raises \<open>TypeError\<close>
  inside the \<open>try\<close>, and the \<open>except\<close> branch returns the empty list. A search type
  that is not a string equals none of the three modes, and only its \<open>str\<close> enters the
  statement.
\<close>

definition call_search_database ::
  "client option \<Rightarrow> jval \<Rightarrow> int \<Rightarrow> jval \<Rightarrow> search_result list" where
  "call_search_database db_client query snippet_length search_type =
     (case query of
        JStr q \<Rightarrow> search_database db_client q snippet_length (py_str search_type)
      | _ \<Rightarrow> [])"

datatype payload =
    ErrorBody string
  | ResultBody jval "search_result list" nat jval

record response =
  status :: nat
  body :: payload

text \<open>
  The handler of \<open>POST /search\<close> for a body that is a JSON object. \<open>Inl\<close> is an
  exception that leaves the handler; \<open>jsonify\<close> alone answers with status 200.
\<close>

definition search :: "client option \<Rightarrow> (string \<rightharpoonup> jval) \<Rightarrow> py_error + response" where
  "search db_client data =
     (if db_client = None
      then Inr \<lparr> status = 500, body = ErrorBody ''Database connection not available'' \<rparr>
      else
        (let query = get data ''query'' (JStr '''')
         in case py_int (get data ''snippet_length'' (JInt 1000)) of
              Inl e \<Rightarrow> Inl e
            | Inr snippet_length \<Rightarrow>
                (let search_type = get data ''search_type'' (JStr ''content'')
                 in if \<not> truthy query
                    then Inr \<lparr> status = 400, body = ErrorBody ''Query is required'' \<rparr>
                    else
                      (let results =
                             call_search_database db_client query snippet_length search_type
                       in Inr \<lparr> status = 200,
                                body = ResultBody query results (length results) search_type \<rparr>))))"

section \<open>Ingestion in \<open>index_text_files\<close>\<close>

text \<open>A row of the table \<open>text_files\<close> that \<open>create_tables\<close> declares.\<close>

record document =
  d_id :: nat
  d_filename :: string
  d_filepath :: string
  d_content :: string
  d_image_url :: "string option"

type_synonym table = "document list"

text \<open>The next value of the \<open>INTEGER PRIMARY KEY\<close>: one more than the largest in use.\<close>

definition next_id :: "table \<Rightarrow> nat" where
  "next_id t = Suc (fold max (map d_id t) 0)"

text \<open>
  The statement \<open>INSERT OR IGNORE INTO text_files (filename, filepath, content,
  image_url) VALUES (?, ?, ?, ?)\<close> on a table whose column \<open>filepath\<close> is declared
  \<open>UNIQUE\<close>: a row whose path is already in the table is not inserted, and the
  statement succeeds.
\<close>

definition insert_or_ignore ::
  "table \<Rightarrow> string \<Rightarrow> string \<Rightarrow> string \<Rightarrow> string option \<Rightarrow> table" where
  "insert_or_ignore t filename filepath content url =
     (if filepath \<in> set (map d_filepath t) then t
      else t @ [\<lparr> d_id = next_id t, d_filename = filename, d_filepath = filepath,
                  d_content = content, d_image_url = url \<rparr>])"

text \<open>\<open>os.path.basename\<close>: what follows the last slash.\<close>

definition basename :: "string \<Rightarrow> string" where
  "basename p = rev (takeWhile (\<lambda>c. c \<noteq> CHR ''/'') (rev p))"

text \<open>
  The loop of \<open>index_text_files\<close> over the files that \<open>glob\<close> found. Each file comes
  with the text read from it, or \<open>None\<close> when an exception is raised while the file is
  processed: the \<open>except\<close> branch then goes on to the next file. The function
  \<open>find_and_upload_image\<close> stands for the method of that name, which returns the public
  address of the image or \<open>None\<close>.
\<close>

fun index_text_files ::
  "(string \<Rightarrow> string option) \<Rightarrow> (string \<times> string option) list \<Rightarrow> table \<Rightarrow> table" where
  "index_text_files find_and_upload_image [] t = t"
| "index_text_files find_and_upload_image ((txt_path, rd) # txt_files) t =
     (case rd of
        None \<Rightarrow> index_text_files find_and_upload_image txt_files t
      | Some full_content \<Rightarrow>
          (let filename = basename txt_path;
               url = find_and_upload_image txt_path
           in index_text_files find_and_upload_image txt_files
                (insert_or_ignore t filename txt_path full_content url)))"

section \<open>The words of the specification\<close>

text \<open>
  The quoting rule in the words of the specification: the query between double quotes,
  every double quote in it doubled.
\<close>

definition phrase_quoted :: "string \<Rightarrow> string" where
  "phrase_quoted q = [dq] @ concat (map (\<lambda>c. if c = dq then [dq, dq] else [c]) q) @ [dq]"

text \<open>White space as Python's \<open>str.isspace\<close> has it on the code points 0 to 255.\<close>

definition is_whitespace :: "char \<Rightarrow> bool" where
  "is_whitespace c =
     (let n = (of_char c :: nat)
      in (9 \<le> n \<and> n \<le> 13) \<or> (28 \<le> n \<and> n \<le> 32) \<or> n = 133 \<or> n = 160)"

text \<open>
  An occurrence of the query in \<open>s\<close> at index \<open>i\<close>, as a case-insensitive literal
  match: the next \<open>len(q)\<close> characters of \<open>s\<close> equal the query up to case.
\<close>

definition occurs_at :: "string \<Rightarrow> string \<Rightarrow> nat \<Rightarrow> bool" where
  "occurs_at q s i =
     (i + length q \<le> length s \<and> map lower_ch (take (length q) (drop i s)) = map lower_ch q)"

text \<open>The substring of \<open>s\<close> from index \<open>a\<close> to index \<open>b\<close>: the characters at \<open>a \<le> i < b\<close>.\<close>

definition substring :: "string \<Rightarrow> int \<Rightarrow> int \<Rightarrow> string" where
  "substring s a b = drop (nat a) (take (nat b) s)"

text \<open>
  The text \<open>s\<close>, whose head has index \<open>pos\<close>, with every span of the list between
  the two highlight tags and the rest copied.
\<close>

fun wrap_spans :: "string \<Rightarrow> nat \<Rightarrow> (nat \<times> nat) list \<Rightarrow> string" where
  "wrap_spans s pos [] = s"
| "wrap_spans s pos ((a, b) # sp) =
     take (a - pos) s @ hl_open @ take (b - a) (drop (a - pos) s) @ hl_close
     @ wrap_spans (drop (b - pos) s) b sp"


section \<open>Sample data\<close>


definition one_file :: "(string \<times> string option) list" where
  "one_file = [(''/TEXT/001/a.txt'', Some ''first text''), (''/TEXT/001/b.txt'', None)]"

definition one_row :: table where
  "one_row =
     [\<lparr> d_id = 1, d_filename = ''a.txt'', d_filepath = ''/TEXT/001/a.txt'',
        d_content = ''first text'', d_image_url = None \<rparr>]"

section \<open>Properties of the string primitives\<close>

lemma starts_with_take: "starts_with p s \<Longrightarrow> take (length p) s = p"
  by (induction p s rule: starts_with.induct) auto

lemma starts_with_decomp: "starts_with p s \<Longrightarrow> p @ drop (length p) s = s"
  using starts_with_take [of p s] append_take_drop_id [of "length p" s] by simp

lemma py_replace_same_aux: "old \<noteq> [] \<Longrightarrow> new = old \<Longrightarrow> py_replace old new s = s"
proof (induction old new s rule: py_replace.induct)
  case (1 old new)
  then show ?case by simp
next
  case (2 old new c cs)
  then show ?case
    using starts_with_decomp [of old "c # cs"] by auto
qed

lemma py_replace_same: "old \<noteq> [] \<Longrightarrow> py_replace old old s = s"
  by (simp add: py_replace_same_aux)

lemma py_replace_char:
  "py_replace [x] new s = concat (map (\<lambda>c. if c = x then new else [c]) s)"
  by (induction s) auto

lemma py_replace1_first:
  "x \<notin> set a \<Longrightarrow> py_replace1 [x] new (a @ x # b) = a @ new @ b"
  by (induction a) auto

lemma sql_head_no_qm: "CHR ''?'' \<notin> set sql_head"
  by (simp add: sql_head_def nl_def ind_def)

lemma sql_tail_no_qm: "CHR ''?'' \<notin> set sql_tail"
  by (simp add: sql_tail_def order_limit_def nl_def ind_def)

section \<open>Properties of the query construction\<close>

lemma quoted_query_eq:
  "quoted_query q = (if CHR '' '' \<in> set q then phrase_quoted q else q)"
  by (simp add: quoted_query_def phrase_quoted_def py_replace_char)

lemma set_quoted_query: "CHR ''?'' \<in> set (quoted_query q) \<longleftrightarrow> CHR ''?'' \<in> set q"
  by (auto simp: quoted_query_eq phrase_quoted_def dq_def split: if_splits)

lemma splice_placeholder:
  "py_replace1 ''?'' p (sql_head @ ''text_files_fts MATCH ?'' @ sql_tail)
     = sql_head @ ''text_files_fts MATCH '' @ p @ sql_tail"
proof -
  have "CHR ''?'' \<notin> set (sql_head @ ''text_files_fts MATCH '')"
    using sql_head_no_qm by simp
  from py_replace1_first [OF this, of p sql_tail] show ?thesis by simp
qed

lemma adjusted_sql_not_all:
  "st \<noteq> ''all'' \<Longrightarrow> adjusted_sql q st
     = sql_head @ ''text_files_fts MATCH ''
       @ py_replace ''?'' (quoted_query q) (fts_query_sql st) @ sql_tail"
  by (simp only: adjusted_sql_def q_params_def sql_template_def if_True list.case
      splice_placeholder simp_thms)

lemma executed_sql_not_all:
  "st \<noteq> ''all'' \<Longrightarrow> executed_sql q st
     = sql_head @ ''text_files_fts MATCH ''
       @ py_replace ''?'' (quoted_query q) (fts_query_sql st) @ sql_tail"
  by (simp add: executed_sql_def py_replace_same adjusted_sql_not_all)


lemma spliced_content:
  "py_replace ''?'' x (fts_query_sql ''content'') = ''content:'' @ x"
  by (simp add: fts_query_sql_def py_replace_char)

lemma spliced_filename:
  "py_replace ''?'' x (fts_query_sql ''filename'') = ''filename:'' @ x"
  by (simp add: fts_query_sql_def py_replace_char)

text \<open>
  Claim C1, as the code has it: a query that contains a space character is wrapped in
  double quotes after every double quote in it is doubled; a query without a space is
  passed unquoted and unmodified; the match expression bound or spliced for every mode
  is built from this quoted query. The test is \<open>' ' in query\<close>: a space, not any
  white space.
\<close>

theorem match_expression_quoting:
  "(CHR '' '' \<in> set q \<longrightarrow> quoted_query q = phrase_quoted q)
   \<and> (CHR '' '' \<notin> set q \<longrightarrow> quoted_query q = q)
   \<and> executed_params q st =
       (if st = ''all''
        then [''content:'' @ quoted_query q @ '' OR filename:'' @ quoted_query q]
        else [st @ '':'' @ quoted_query q])"
  by (simp add: quoted_query_eq executed_params_def q_params_def params_def match_clause_def)

text \<open>The quoting at \<open>new york\<close> and at \<open>york\<close>.\<close>

theorem match_expression_quoting_witness:
  "quoted_query ''new york'' = [dq] @ ''new york'' @ [dq]
   \<and> quoted_query ''york'' = ''york''
   \<and> executed_params ''new york'' ''all''
       = [''content:'' @ [dq] @ ''new york'' @ [dq] @ '' OR filename:'' @ [dq] @ ''new york'' @ [dq]]"
  using match_expression_quoting [of "''new york''" "''all''"]
    match_expression_quoting [of "''york''" "''all''"]
  by (simp add: phrase_quoted_def dq_def)

text \<open>
  Claim C1 as stated fails at a query whose only white space is a tab: it is passed
  unquoted.
\<close>

theorem tab_query_not_quoted:
  "is_whitespace (CHR 0x09)
   \<and> CHR 0x09 \<in> set [CHR ''a'', CHR 0x09, CHR ''b'']
   \<and> quoted_query [CHR ''a'', CHR 0x09, CHR ''b''] = [CHR ''a'', CHR 0x09, CHR ''b'']
   \<and> quoted_query [CHR ''a'', CHR 0x09, CHR ''b''] \<noteq> phrase_quoted [CHR ''a'', CHR 0x09, CHR ''b'']"
  by (simp add: is_whitespace_def quoted_query_def phrase_quoted_def dq_def)




text \<open>
  Claim C10, as the code has it: in the modes \<open>content\<close> and \<open>filename\<close> the
  executed statement is the template with its placeholder replaced by the mode prefix
  and the quoted query, the same match clause is still passed as the one bind parameter,
  and the only question marks of the executed statement are those of the query itself.
\<close>

theorem match_value_spliced_into_sql:
  "st = ''content'' \<or> st = ''filename'' \<Longrightarrow>
     executed_sql q st = sql_head @ ''text_files_fts MATCH '' @ st @ '':'' @ quoted_query q @ sql_tail
     \<and> executed_params q st = [st @ '':'' @ quoted_query q]
     \<and> CHR ''?'' \<notin> set sql_head \<and> CHR ''?'' \<notin> set sql_tail
     \<and> (CHR ''?'' \<in> set (executed_sql q st) \<longleftrightarrow> CHR ''?'' \<in> set q)"
proof -
  assume st: "st = ''content'' \<or> st = ''filename''"
  then have na: "st \<noteq> ''all''" by auto
  from st have sp: "py_replace ''?'' (quoted_query q) (fts_query_sql st) = st @ '':'' @ quoted_query q"
    using spliced_content spliced_filename by auto
  have sql: "executed_sql q st = sql_head @ ''text_files_fts MATCH '' @ st @ '':'' @ quoted_query q @ sql_tail"
    using executed_sql_not_all [OF na, of q] sp by simp
  have par: "executed_params q st = [st @ '':'' @ quoted_query q]"
    using na by (simp add: executed_params_def match_clause_def)
  have qm: "CHR ''?'' \<in> set (executed_sql q st) \<longleftrightarrow> CHR ''?'' \<in> set q"
    using st sql_head_no_qm sql_tail_no_qm set_quoted_query [of q] by (auto simp: sql)
  from sql par qm sql_head_no_qm sql_tail_no_qm show ?thesis by simp
qed

text \<open>The statement and the parameters for \<open>fox\<close> in mode \<open>content\<close>.\<close>

theorem match_value_spliced_into_sql_witness:
  "executed_sql ''fox'' ''content'' = sql_head @ ''text_files_fts MATCH content:fox'' @ sql_tail
   \<and> executed_params ''fox'' ''content'' = [''content:fox'']
   \<and> CHR ''?'' \<notin> set (executed_sql ''fox'' ''content'')"
  using match_value_spliced_into_sql [of "''content''" "''fox''"]
  by (simp add: quoted_query_def)

text \<open>
  Claim C10 as stated fails at the query \<open>?\<close>: the executed statement still has a
  placeholder, which comes from the query text.
\<close>

theorem placeholder_left_by_query:
  "executed_sql ''?'' ''content'' = sql_head @ ''text_files_fts MATCH content:?'' @ sql_tail
   \<and> executed_params ''?'' ''content'' = [''content:?'']
   \<and> CHR ''?'' \<in> set (executed_sql ''?'' ''content'')"
  by (simp add: executed_sql_not_all spliced_content executed_params_def match_clause_def
      quoted_query_def)

section \<open>Properties of the regular-expression scan\<close>

lemma ci_starts_with_iff:
  "ci_starts_with q s \<longleftrightarrow>
     length q \<le> length s \<and> map lower_ch (take (length q) s) = map lower_ch q"
  by (induction q s rule: ci_starts_with.induct) auto

lemma occurs_at_iff: "occurs_at q s i \<longleftrightarrow> i \<le> length s \<and> ci_starts_with q (drop i s)"
  by (auto simp: occurs_at_def ci_starts_with_iff)

lemma occurs_at_0: "occurs_at q s 0 \<longleftrightarrow> ci_starts_with q s"
  by (simp add: occurs_at_iff)

lemma occurs_at_Suc: "occurs_at q (c # cs) (Suc i) \<longleftrightarrow> occurs_at q cs i"
  by (simp add: occurs_at_iff)

lemma occurs_at_drop:
  "n \<le> i \<Longrightarrow> n \<le> length s \<Longrightarrow> occurs_at q s i \<longleftrightarrow> occurs_at q (drop n s) (i - n)"
  by (auto simp: occurs_at_iff)

lemma occurs_at_Nil: "occurs_at q [] i \<longleftrightarrow> q = [] \<and> i = 0"
  by (auto simp: occurs_at_def)

text \<open>Every span of the scan is an occurrence.\<close>

lemma finditer_from_sound:
  "(a, b) \<in> set (finditer_from q s pos) \<Longrightarrow>
     pos \<le> a \<and> b = a + length q \<and> occurs_at q s (a - pos)"
proof (induction q s pos rule: finditer_from.induct)
  case (1 q pos)
  then show ?case by (auto simp: occurs_at_Nil split: if_splits)
next
  case (2 q c cs pos)
  show ?case
  proof (cases "q = []")
    case True
    from 2(4) True
    consider "a = pos" "b = pos" | "(a, b) \<in> set (finditer_from q cs (Suc pos))"
      by auto
    then show ?thesis
    proof cases
      case 1
      then show ?thesis using True by (simp add: occurs_at_0)
    next
      case 2
      from "2.IH"(1) [OF True 2]
      have ih: "Suc pos \<le> a" "b = a + length q" "occurs_at q cs (a - Suc pos)" by auto
      then have "a - pos = Suc (a - Suc pos)" by simp
      with ih show ?thesis by (simp add: occurs_at_Suc)
    qed
  next
    case False
    show ?thesis
    proof (cases "ci_starts_with q (c # cs)")
      case True
      have len: "length q \<le> length (c # cs)"
        using True ci_starts_with_iff by blast
      from 2(4) False True
      consider "a = pos" "b = pos + length q"
        | "(a, b) \<in> set (finditer_from q (drop (length q) (c # cs)) (pos + length q))"
        by auto
      then show ?thesis
      proof cases
        case 1
        then show ?thesis using True by (simp add: occurs_at_0)
      next
        case 2
        from "2.IH"(2) [OF False True 2]
        have ih: "pos + length q \<le> a" "b = a + length q"
          "occurs_at q (drop (length q) (c # cs)) (a - (pos + length q))"
          by auto
        have "occurs_at q (c # cs) (a - pos)"
          using occurs_at_drop [of "length q" "a - pos" "c # cs" q] ih len
          by (simp add: diff_diff_left add.commute)
        with ih show ?thesis by simp
      qed
    next
      case nomatch: False
      from 2(4) False nomatch
      have "(a, b) \<in> set (finditer_from q cs (Suc pos))" by simp
      from "2.IH"(3) [OF False nomatch this]
      have ih: "Suc pos \<le> a" "b = a + length q" "occurs_at q cs (a - Suc pos)" by auto
      then have "a - pos = Suc (a - Suc pos)" by simp
      with ih show ?thesis by (simp add: occurs_at_Suc)
    qed
  qed
qed

text \<open>Nothing occurs before the first span of the scan.\<close>

lemma finditer_from_first:
  "finditer_from q s pos = (a, b) # rest \<Longrightarrow> j < a - pos \<Longrightarrow> \<not> occurs_at q s j"
proof (induction q s pos arbitrary: j rule: finditer_from.induct)
  case (1 q pos)
  then show ?case by (auto split: if_splits)
next
  case (2 q c cs pos)
  show ?case
  proof (cases "q \<noteq> [] \<and> \<not> ci_starts_with q (c # cs)")
    case True
    with 2(4) have eq: "finditer_from q cs (Suc pos) = (a, b) # rest" by simp
    show ?thesis
    proof (cases j)
      case 0
      then show ?thesis using True by (simp add: occurs_at_0)
    next
      case (Suc k)
      with 2(5) have "k < a - Suc pos" by simp
      from "2.IH"(3) [OF _ _ eq this] True Suc show ?thesis
        by (simp add: occurs_at_Suc)
    qed
  next
    case False
    with 2(4) have "a = pos" by (auto split: if_splits)
    with 2(5) show ?thesis by simp
  qed
qed

text \<open>The scan finds nothing only when nothing occurs.\<close>

lemma finditer_from_Nil:
  "finditer_from q s pos = [] \<Longrightarrow> \<not> occurs_at q s j"
proof (induction q s pos arbitrary: j rule: finditer_from.induct)
  case (1 q pos)
  then show ?case by (auto simp: occurs_at_Nil split: if_splits)
next
  case (2 q c cs pos)
  from 2(4) have nm: "q \<noteq> []" "\<not> ci_starts_with q (c # cs)"
    and eq: "finditer_from q cs (Suc pos) = []"
    by (auto split: if_splits)
  show ?case
  proof (cases j)
    case 0
    then show ?thesis using nm by (simp add: occurs_at_0)
  next
    case (Suc k)
    from "2.IH"(3) [OF nm eq, of k] Suc show ?thesis
      by (simp add: occurs_at_Suc)
  qed
qed

lemma finditer_first_match:
  assumes occ: "occurs_at q s m" and least: "\<forall>j<m. \<not> occurs_at q s j"
  shows "\<exists>rest. finditer q s = (m, m + length q) # rest"
proof (cases "finditer q s")
  case Nil
  then show ?thesis using finditer_from_Nil [of q s 0 m] occ by (simp add: finditer_def)
next
  case (Cons ab rest)
  obtain a b where ab: "ab = (a, b)" by (cases ab)
  with Cons have eq: "finditer_from q s 0 = (a, b) # rest" by (simp add: finditer_def)
  then have "(a, b) \<in> set (finditer_from q s 0)" by simp
  from finditer_from_sound [OF this] have b: "b = a + length q" and oa: "occurs_at q s a"
    by auto
  have "\<not> m < a" using finditer_from_first [OF eq, of m] occ by auto
  moreover have "\<not> a < m" using least oa by auto
  ultimately have "a = m" by simp
  with b Cons ab show ?thesis by simp
qed

lemma finditer_none:
  "finditer q s = [] \<longleftrightarrow> (\<forall>i. \<not> occurs_at q s i)"
proof
  assume "finditer q s = []"
  then show "\<forall>i. \<not> occurs_at q s i"
    using finditer_from_Nil [of q s 0] by (simp add: finditer_def)
next
  assume no: "\<forall>i. \<not> occurs_at q s i"
  show "finditer q s = []"
  proof (cases "finditer q s")
    case Nil
    then show ?thesis .
  next
    case (Cons ab rest)
    obtain a b where "ab = (a, b)" by (cases ab)
    with Cons have "(a, b) \<in> set (finditer_from q s 0)" by (simp add: finditer_def)
    from finditer_from_sound [OF this] no show ?thesis by auto
  qed
qed

section \<open>Properties of the snippet\<close>

lemma py_slice_substring:
  "0 \<le> i \<Longrightarrow> 0 \<le> j \<Longrightarrow> py_slice s i j = substring s i j"
  by (auto simp: py_slice_def substring_def Let_def min_def)

text \<open>
  Claim C2, as the code has it: when the leftmost occurrence of the query in the content
  starts at \<open>m\<close>, and the end bound \<open>m + len(q) + L\<close> is not negative (as for every
  \<open>L \<ge> 0\<close>), the snippet is the substring from \<open>max(0, m - L)\<close> to
  \<open>min(len(content), m + len(q) + L)\<close>, with \<open>...\<close> in front iff the start bound is
  above 0 and \<open>...\<close> behind iff the end bound is below \<open>len(content)\<close>.
\<close>

theorem snippet_window:
  assumes occ: "occurs_at q s m" and least: "\<forall>j<m. \<not> occurs_at q s j"
    and nonneg: "0 \<le> int (m + length q) + L"
  shows "make_snippet q L s =
     (let start = max 0 (int m - L);
          end = min (int (length s)) (int (m + length q) + L)
      in (if start > 0 then ''...'' else '''') @ substring s start end
         @ (if end < int (length s) then ''...'' else ''''))"
proof -
  from finditer_first_match [OF occ least]
  obtain rest where fi: "finditer q s = (m, m + length q) # rest" by blast
  show ?thesis
    unfolding make_snippet_def fi using nonneg by (simp add: Let_def py_slice_substring)
qed

text \<open>The window around \<open>quick\<close>, cut at both ends and cut at the end only.\<close>

theorem snippet_window_witness:
  "occurs_at ''quick'' ''the quick brown fox'' 4
   \<and> make_snippet ''quick'' 3 ''the quick brown fox'' = ''...he quick br...''
   \<and> make_snippet ''QUICK'' 4 ''the quick brown fox'' = ''the quick bro...''"
proof -
  have o: "occurs_at ''quick'' ''the quick brown fox'' 4"
    by (simp add: occurs_at_def lower_ch_def is_upper_def)
  have l: "\<forall>j<4. \<not> occurs_at ''quick'' ''the quick brown fox'' j"
    by (simp add: occurs_at_def lower_ch_def is_upper_def less_Suc_eq numeral_nat)
  have o2: "occurs_at ''QUICK'' ''the quick brown fox'' 4"
    by (simp add: occurs_at_def lower_ch_def is_upper_def)
  have l2: "\<forall>j<4. \<not> occurs_at ''QUICK'' ''the quick brown fox'' j"
    by (simp add: occurs_at_def lower_ch_def is_upper_def less_Suc_eq numeral_nat)
  from snippet_window [OF o l, of 3] snippet_window [OF o2 l2, of 4] o
  show ?thesis by (simp add: substring_def Let_def)
qed

text \<open>
  Claim C2 as stated fails at \<open>snippet_length = -2\<close>: the end bound is \<open>-1\<close>, the
  substring from 2 to \<open>-1\<close> is empty, and the slice \<open>content[2:-1]\<close> counts from the
  end.
\<close>

theorem negative_length_wraps_slice:
  "occurs_at ''a'' ''abcdefghij'' 0
   \<and> max 0 (int 0 - (- 2)) = (2 :: int)
   \<and> min (int (length ''abcdefghij'')) (int (0 + length ''a'') + (- 2)) = (- 1 :: int)
   \<and> substring ''abcdefghij'' 2 (- 1) = ''''
   \<and> make_snippet ''a'' (- 2) ''abcdefghij'' = ''...cdefghi...''"
  by (simp add: occurs_at_def substring_def make_snippet_def finditer_def py_slice_def
      lower_ch_def is_upper_def)

text \<open>
  Claim C5, as the code has it: when the query occurs nowhere in the content and
  \<open>snippet_length\<close> is not negative, the snippet is the first \<open>2 * snippet_length\<close>
  characters of the content, followed by \<open>...\<close> iff the content is longer.
\<close>

theorem snippet_fallback:
  assumes no: "\<forall>i. \<not> occurs_at q s i" and nonneg: "0 \<le> L"
  shows "make_snippet q L s =
     take (nat (2 * L)) s @ (if int (length s) > 2 * L then ''...'' else '''')"
proof -
  from no have fi: "finditer q s = []" by (simp add: finditer_none)
  have "py_slice s 0 (L * 2) = take (nat (2 * L)) s"
    using nonneg by (auto simp: py_slice_def Let_def min_def mult.commute)
  then show ?thesis
    unfolding make_snippet_def fi by (simp add: mult.commute)
qed

text \<open>The fallback for a query that does not occur, cut and not cut.\<close>

theorem snippet_fallback_witness:
  "(\<forall>i. \<not> occurs_at ''zebra'' ''the quick brown fox'' i)
   \<and> make_snippet ''zebra'' 5 ''the quick brown fox'' = ''the quick ...''
   \<and> make_snippet ''zebra'' 10 ''the quick brown fox'' = ''the quick brown fox''"
proof -
  have "finditer ''zebra'' ''the quick brown fox'' = []"
    by (simp add: finditer_def lower_ch_def is_upper_def)
  then have no: "\<forall>i. \<not> occurs_at ''zebra'' ''the quick brown fox'' i"
    by (simp add: finditer_none)
  from snippet_fallback [OF no, of 5] snippet_fallback [OF no, of 10] no
  show ?thesis by simp
qed

text \<open>
  Claim C5 as stated fails at \<open>snippet_length = -1\<close>: the first \<open>-2\<close> characters are
  none, and the slice \<open>content[:-2]\<close> is all but the last two.
\<close>

theorem negative_length_drops_tail:
  "finditer ''z'' ''abcdef'' = []
   \<and> take (nat (2 * (- 1))) ''abcdef'' = ''''
   \<and> make_snippet ''z'' (- 1) ''abcdef'' = ''abcd...''"
  by (simp add: make_snippet_def finditer_def py_slice_def lower_ch_def is_upper_def)

section \<open>Properties of the highlighting\<close>

lemma wrap_spans_Cons:
  "(\<forall>(a, b) \<in> set sp. Suc pos \<le> a \<and> a \<le> b) \<Longrightarrow>
     wrap_spans (c # cs) pos sp = c # wrap_spans cs (Suc pos) sp"
proof (cases sp)
  case Nil
  then show ?thesis by simp
next
  case (Cons ab rest)
  obtain a b where ab: "ab = (a, b)" by (cases ab)
  assume "\<forall>(a, b) \<in> set sp. Suc pos \<le> a \<and> a \<le> b"
  with Cons ab have le: "Suc pos \<le> a" "a \<le> b" by auto
  then have "a - pos = Suc (a - Suc pos)" "b - pos = Suc (b - Suc pos)" by auto
  with Cons ab show ?thesis by simp
qed

lemma finditer_from_bounds:
  "(a, b) \<in> set (finditer_from q s pos) \<Longrightarrow> pos \<le> a \<and> a \<le> b"
  using finditer_from_sound [of a b q s pos] by simp

lemma highlight_wrap_from:
  "highlight q s = wrap_spans s pos (finditer_from q s pos)"
proof (induction q s arbitrary: pos rule: highlight.induct)
  case (1 q)
  then show ?case by simp
next
  case (2 q c cs)
  show ?case
  proof (cases "q = []")
    case True
    have b: "\<forall>(a, b) \<in> set (finditer_from q cs (Suc pos)). Suc pos \<le> a \<and> a \<le> b"
      using finditer_from_bounds by blast
    from "2.IH"(1) [OF True, of "Suc pos"] True wrap_spans_Cons [OF b, of c cs]
    show ?thesis by simp
  next
    case False
    show ?thesis
    proof (cases "ci_starts_with q (c # cs)")
      case True
      from "2.IH"(2) [OF False True, of "pos + length q"] False True
      show ?thesis by simp
    next
      case nomatch: False
      have b: "\<forall>(a, b) \<in> set (finditer_from q cs (Suc pos)). Suc pos \<le> a \<and> a \<le> b"
        using finditer_from_bounds by blast
      from "2.IH"(3) [OF False nomatch, of "Suc pos"] False nomatch
        wrap_spans_Cons [OF b, of c cs]
      show ?thesis by simp
    qed
  qed
qed

lemma finditer_from_sorted:
  "sorted_wrt (\<lambda>(a, b) (c, d). b \<le> c) (finditer_from q s pos)"
proof (induction q s pos rule: finditer_from.induct)
  case (1 q pos)
  then show ?case by simp
next
  case (2 q c cs pos)
  show ?case
  proof (cases "q = []")
    case True
    have "\<forall>(a, b) \<in> set (finditer_from q cs (Suc pos)). pos \<le> a"
      using finditer_from_bounds by fastforce
    with "2.IH"(1) [OF True] True show ?thesis by auto
  next
    case False
    show ?thesis
    proof (cases "ci_starts_with q (c # cs)")
      case True
      have "\<forall>(a, b) \<in> set (finditer_from q (drop (length q) (c # cs)) (pos + length q)).
              pos + length q \<le> a"
        using finditer_from_bounds by fastforce
      with "2.IH"(2) [OF False True] False True show ?thesis by auto
    next
      case nomatch: False
      with "2.IH"(3) [OF False nomatch] False show ?thesis by simp
    qed
  qed
qed

text \<open>An occurrence is a span of the scan, or starts inside an earlier span.\<close>

lemma finditer_from_complete:
  "occurs_at q s j \<Longrightarrow>
     (pos + j, pos + j + length q) \<in> set (finditer_from q s pos)
     \<or> (\<exists>(a, b) \<in> set (finditer_from q s pos). a < pos + j \<and> pos + j < b)"
proof (induction q s pos arbitrary: j rule: finditer_from.induct)
  case (1 q pos)
  then show ?case by (simp add: occurs_at_Nil)
next
  case (2 q c cs pos)
  show ?case
  proof (cases "q = []")
    case True
    show ?thesis
    proof (cases j)
      case 0
      then show ?thesis using True by simp
    next
      case (Suc k)
      with 2(4) have "occurs_at q cs k" by (simp add: occurs_at_Suc)
      from "2.IH"(1) [OF True this] True Suc show ?thesis by auto
    qed
  next
    case False
    show ?thesis
    proof (cases "ci_starts_with q (c # cs)")
      case True
      have len: "length q \<le> length (c # cs)"
        using True ci_starts_with_iff by blast
      consider "j = 0" | "0 < j" "j < length q" | "length q \<le> j" by linarith
      then show ?thesis
      proof cases
        case 1
        then show ?thesis using False True by simp
      next
        case 2
        then show ?thesis using False True by auto
      next
        case 3
        have "occurs_at q (drop (length q) (c # cs)) (j - length q)"
          using occurs_at_drop [OF 3 len, of q] 2(4) by simp
        from "2.IH"(2) [OF False True this] 3 False True show ?thesis
          by (auto simp: add.assoc)
      qed
    next
      case nomatch: False
      show ?thesis
      proof (cases j)
        case 0
        with 2(4) nomatch show ?thesis by (simp add: occurs_at_0)
      next
        case (Suc k)
        with 2(4) have "occurs_at q cs k" by (simp add: occurs_at_Suc)
        from "2.IH"(3) [OF False nomatch this] False nomatch Suc show ?thesis by auto
      qed
    qed
  qed
qed

text \<open>
  Claim C3, as the code has it: the highlighted text is the snippet with exactly the
  matches of the left-to-right scan between the tags; every such match is an occurrence
  of the query in the snippet, the matches do not overlap, and every occurrence in the
  snippet is one of them or starts inside an earlier one. The result of a row is built
  from the snippet alone, so nothing outside the window is marked.
\<close>

theorem highlight_wraps_scan:
  "highlight q s = wrap_spans s 0 (finditer q s)
   \<and> (\<forall>(a, b) \<in> set (finditer q s). occurs_at q s a \<and> b = a + length q)
   \<and> sorted_wrt (\<lambda>(a, b) (c, d). b \<le> c) (finditer q s)
   \<and> (\<forall>i. occurs_at q s i \<longrightarrow>
         (i, i + length q) \<in> set (finditer q s)
         \<or> (\<exists>(a, b) \<in> set (finditer q s). a < i \<and> i < b))
   \<and> snippet (process_row q L r) =
       wrap_spans (make_snippet q L (r_content r)) 0
         (finditer q (make_snippet q L (r_content r)))"
proof -
  have 1: "highlight q s = wrap_spans s 0 (finditer q s)" for s
    using highlight_wrap_from [of q s 0] by (simp add: finditer_def)
  have 2: "\<forall>(a, b) \<in> set (finditer q s). occurs_at q s a \<and> b = a + length q"
    using finditer_from_sound [of _ _ q s 0] by (auto simp: finditer_def)
  have 3: "sorted_wrt (\<lambda>(a, b) (c, d). b \<le> c) (finditer q s)"
    using finditer_from_sorted [of q s 0] by (simp add: finditer_def)
  have 4: "\<forall>i. occurs_at q s i \<longrightarrow>
         (i, i + length q) \<in> set (finditer q s)
         \<or> (\<exists>(a, b) \<in> set (finditer q s). a < i \<and> i < b)"
    using finditer_from_complete [of q s _ 0] by (simp add: finditer_def)
  have 5: "snippet (process_row q L r) =
       wrap_spans (make_snippet q L (r_content r)) 0
         (finditer q (make_snippet q L (r_content r)))"
    using 1 by (simp add: process_row_def)
  from 1 2 3 4 5 show ?thesis by blast
qed

text \<open>Both occurrences of \<open>fox\<close> are wrapped, whatever their case.\<close>

theorem highlight_wraps_scan_witness:
  "highlight ''fox'' ''a Fox, a fox'' =
     ''a '' @ hl_open @ ''Fox'' @ hl_close @ '', a '' @ hl_open @ ''fox'' @ hl_close
   \<and> occurs_at ''fox'' ''a Fox, a fox'' 9
   \<and> (9, 12) \<in> set (finditer ''fox'' ''a Fox, a fox'')"
proof -
  have f: "finditer ''fox'' ''a Fox, a fox'' = [(2, 5), (9, 12)]"
    by (simp add: finditer_def lower_ch_def is_upper_def)
  have o: "occurs_at ''fox'' ''a Fox, a fox'' 9"
    by (simp add: occurs_at_def lower_ch_def is_upper_def)
  from highlight_wraps_scan [of "''fox''" "''a Fox, a fox''"] f o
  show ?thesis by simp
qed

text \<open>
  Claim C3 as stated fails where occurrences overlap: \<open>aa\<close> occurs in \<open>aaa\<close> at 0
  and at 1, and only the first is wrapped.
\<close>

theorem overlapping_occurrence_not_wrapped:
  "occurs_at ''aa'' ''aaa'' 1
   \<and> finditer ''aa'' ''aaa'' = [(0, 2)]
   \<and> highlight ''aa'' ''aaa'' = hl_open @ ''aa'' @ hl_close @ ''a''"
  by (simp add: occurs_at_def finditer_def lower_ch_def is_upper_def)

section \<open>Properties of the search\<close>





text \<open>
  Claim C7 at a request whose \<open>execute\<close> call raises: \<open>search_database\<close> catches the
  exception and returns the empty list, and the answer of \<open>search\<close> is status 200 with
  no results and count 0, the same as for an engine that finds no row. The handler does
  return an answer.
\<close>

theorem query_error_answered_as_empty:
  "search (Some (\<lambda>sql ps. Inl DbError)) [''query'' \<mapsto> JStr ''fox'']
     = Inr \<lparr> status = 200, body = ResultBody (JStr ''fox'') [] 0 (JStr ''content'') \<rparr>
   \<and> search (Some (\<lambda>sql ps. Inr [])) [''query'' \<mapsto> JStr ''fox'']
     = search (Some (\<lambda>sql ps. Inl DbError)) [''query'' \<mapsto> JStr ''fox'']"
  by (simp add: search_def get_def call_search_database_def search_database_def)




section \<open>Properties of the ingestion\<close>

lemma paths_insert_or_ignore:
  "set (map d_filepath (insert_or_ignore t fn fp c u)) = insert fp (set (map d_filepath t))"
  by (auto simp: insert_or_ignore_def)

lemma distinct_insert_or_ignore:
  "distinct (map d_filepath t) \<Longrightarrow> distinct (map d_filepath (insert_or_ignore t fn fp c u))"
  by (auto simp: insert_or_ignore_def)

lemma insert_or_ignore_present:
  "fp \<in> set (map d_filepath t) \<Longrightarrow> insert_or_ignore t fn fp c u = t"
  by (simp add: insert_or_ignore_def)

lemma paths_index_mono:
  "p \<in> set (map d_filepath t) \<Longrightarrow> p \<in> set (map d_filepath (index_text_files img fs t))"
proof (induction fs arbitrary: t)
  case Nil
  then show ?case by simp
next
  case (Cons f fs)
  obtain fp rd where f: "f = (fp, rd)" by (cases f)
  show ?case
  proof (cases rd)
    case None
    with Cons f show ?thesis by simp
  next
    case (Some c)
    have "p \<in> set (map d_filepath (insert_or_ignore t (basename fp) fp c (img fp)))"
      using Cons.prems paths_insert_or_ignore by blast
    from Cons.IH [OF this] f Some show ?thesis by (simp add: Let_def)
  qed
qed

lemma paths_index_read:
  "(p, Some c) \<in> set fs \<Longrightarrow> p \<in> set (map d_filepath (index_text_files img fs t))"
proof (induction fs arbitrary: t)
  case Nil
  then show ?case by simp
next
  case (Cons f fs)
  obtain fp rd where f: "f = (fp, rd)" by (cases f)
  show ?case
  proof (cases "f = (p, Some c)")
    case True
    have "p \<in> set (map d_filepath (insert_or_ignore t (basename p) p c (img p)))"
      using paths_insert_or_ignore by blast
    from paths_index_mono [OF this] True show ?thesis by (simp add: Let_def)
  next
    case False
    with Cons.prems have "(p, Some c) \<in> set fs" by simp
    from Cons.IH [OF this] f show ?thesis by (cases rd) (simp_all add: Let_def)
  qed
qed

lemma distinct_index:
  "distinct (map d_filepath t) \<Longrightarrow> distinct (map d_filepath (index_text_files img fs t))"
proof (induction fs arbitrary: t)
  case Nil
  then show ?case by simp
next
  case (Cons f fs)
  obtain fp rd where f: "f = (fp, rd)" by (cases f)
  show ?case
  proof (cases rd)
    case None
    with Cons f show ?thesis by simp
  next
    case (Some c)
    from Cons.IH [OF distinct_insert_or_ignore [OF Cons.prems]] f Some
    show ?thesis by (simp add: Let_def)
  qed
qed

lemma index_present_noop:
  "(\<forall>(p, rd) \<in> set fs. rd \<noteq> None \<longrightarrow> p \<in> set (map d_filepath t)) \<Longrightarrow>
     index_text_files img fs t = t"
proof (induction fs)
  case Nil
  then show ?case by simp
next
  case (Cons f fs)
  obtain fp rd where f: "f = (fp, rd)" by (cases f)
  from Cons have ih: "index_text_files img fs t = t" by simp
  show ?case
  proof (cases rd)
    case None
    with f ih show ?thesis by simp
  next
    case (Some c)
    with Cons.prems f have "fp \<in> set (map d_filepath t)" by auto
    with f Some ih show ?thesis by (simp add: insert_or_ignore_present)
  qed
qed

lemma count_distinct_path:
  "distinct (map d_filepath t) \<Longrightarrow> p \<in> set (map d_filepath t) \<Longrightarrow>
     length (filter (\<lambda>d. d_filepath d = p) t) = 1"
proof (induction t)
  case Nil
  then show ?case by simp
next
  case (Cons d t)
  show ?case
  proof (cases "d_filepath d = p")
    case True
    with Cons.prems have "p \<notin> d_filepath ` set t" by auto
    then have "filter (\<lambda>d. d_filepath d = p) t = []"
      by (auto simp: filter_empty_conv)
    with True show ?thesis by simp
  next
    case False
    with Cons show ?thesis by auto
  qed
qed

text \<open>
  Claim C8: on a table whose paths are unique, ingesting a file whose path is already in
  the table leaves the table as it is, whatever the file now holds and whatever image is
  found, and the table has one row for that path; ingesting a corpus a second time gives
  the table of the first time; the paths stay unique.
\<close>

theorem reingestion_is_noop:
  assumes "distinct (map d_filepath t)"
  shows "(p \<in> set (map d_filepath t) \<longrightarrow>
            index_text_files img' [(p, rd')] t = t
            \<and> length (filter (\<lambda>d. d_filepath d = p) (index_text_files img' [(p, rd')] t)) = 1)
         \<and> index_text_files img fs (index_text_files img fs t) = index_text_files img fs t
         \<and> distinct (map d_filepath (index_text_files img fs t))"
proof -
  have a: "index_text_files img' [(p, rd')] t = t" if "p \<in> set (map d_filepath t)"
    using that by (intro index_present_noop) auto
  have b: "length (filter (\<lambda>d. d_filepath d = p) t) = 1" if "p \<in> set (map d_filepath t)"
    using count_distinct_path [OF assms that] .
  have c: "index_text_files img fs (index_text_files img fs t) = index_text_files img fs t"
  proof (rule index_present_noop)
    show "\<forall>(p, rd) \<in> set fs. rd \<noteq> None \<longrightarrow>
            p \<in> set (map d_filepath (index_text_files img fs t))"
      using paths_index_read by fastforce
  qed
  from a b c distinct_index [OF assms] show ?thesis by simp
qed

text \<open>A corpus of one readable and one unreadable file, ingested twice and then changed.\<close>

theorem reingestion_is_noop_witness:
  "index_text_files (\<lambda>p. None) one_file [] = one_row
   \<and> index_text_files (\<lambda>p. None) one_file one_row = one_row
   \<and> distinct (map d_filepath one_row)
   \<and> ''/TEXT/001/a.txt'' \<in> set (map d_filepath one_row)
   \<and> index_text_files (\<lambda>p. Some ''https://pub/001/a.jpg'')
        [(''/TEXT/001/a.txt'', Some ''changed text'')] one_row = one_row
   \<and> length (filter (\<lambda>d. d_filepath d = ''/TEXT/001/a.txt'') one_row) = 1"
proof -
  have run: "index_text_files (\<lambda>p. None) one_file [] = one_row"
    by (simp add: one_file_def one_row_def insert_or_ignore_def next_id_def basename_def)
  have d0: "distinct (map d_filepath ([] :: table))" by simp
  have d1: "distinct (map d_filepath one_row)" by (simp add: one_row_def)
  have m: "''/TEXT/001/a.txt'' \<in> set (map d_filepath one_row)" by (simp add: one_row_def)
  from reingestion_is_noop [OF d0, of "''/TEXT/001/a.txt''" "\<lambda>p. None" None "\<lambda>p. None" one_file]
  have twice: "index_text_files (\<lambda>p. None) one_file one_row = one_row"
    by (simp add: run)
  from reingestion_is_noop [OF d1, of "''/TEXT/001/a.txt''"
      "\<lambda>p. Some ''https://pub/001/a.jpg''" "Some ''changed text''" "\<lambda>p. None" "[]"] m
  have same: "index_text_files (\<lambda>p. Some ''https://pub/001/a.jpg'')
        [(''/TEXT/001/a.txt'', Some ''changed text'')] one_row = one_row"
    and one: "length (filter (\<lambda>d. d_filepath d = ''/TEXT/001/a.txt'')
        (index_text_files (\<lambda>p. Some ''https://pub/001/a.jpg'')
          [(''/TEXT/001/a.txt'', Some ''changed text'')] one_row)) = 1"
    by blast+
  from one have again: "length (filter (\<lambda>d. d_filepath d = ''/TEXT/001/a.txt'') one_row) = 1"
    by (simp only: same)
  from run twice d1 m same again show ?thesis by (simp only: simp_thms)
qed

end
